theory Spec2Isabelle
  imports Main "HOL-Library.Char_ord" "HOL-Library.List_Lexorder" "HOL-Library.Product_Lexorder"
begin

section \<open>Data model of degrees.py\<close>

text \<open>
  Identifiers of people and of movies are Python strings. The three module-level
  dictionaries \<open>names\<close>, \<open>people\<close> and \<open>movies\<close> are gathered in one record that is
  passed to every function reading them and returned by every function writing them.
  A Python \<open>set\<close> is a HOL set; a \<open>dict\<close> is a map.
\<close>

type_synonym ident = string

text \<open>The exceptions the program can raise: a failed dictionary lookup (or \<open>pop\<close> from an
  empty set), and \<open>Exception("empty frontier")\<close>.\<close>

datatype error = KeyError | EmptyFrontier

record person =
  name :: string
  birth :: string
  movies :: "ident set"

record movie =
  title :: string
  year :: string
  stars :: "ident set"

record store =
  names :: "string \<rightharpoonup> ident set"
  people :: "ident \<rightharpoonup> person"
  movies_tbl :: "ident \<rightharpoonup> movie"

subsection \<open>Node\<close>

text \<open>\<open>class Node\<close>: a state, an optional parent node and an optional action
  (\<open>None\<close> for the root).\<close>

datatype node = Node (state: ident) (parent: "node option") (action: "ident option")

subsection \<open>StackFrontier and QueueFrontier\<close>

text \<open>\<open>QueueFrontier\<close> inherits the attribute and every method but \<open>remove\<close> from
  \<open>StackFrontier\<close>, so both share the record; the two \<open>remove\<close> methods are two functions.\<close>

record StackFrontier =
  frontier :: "node list"

definition init_frontier :: StackFrontier where
  "init_frontier = \<lparr>frontier = []\<rparr>"

definition add :: "StackFrontier \<Rightarrow> node \<Rightarrow> StackFrontier" where
  "add fr n = fr\<lparr>frontier := frontier fr @ [n]\<rparr>"

definition contains_state :: "StackFrontier \<Rightarrow> ident \<Rightarrow> bool" where
  "contains_state fr s = list_ex (\<lambda>n. state n = s) (frontier fr)"

definition empty_frontier :: "StackFrontier \<Rightarrow> bool" where
  "empty_frontier fr = (length (frontier fr) = 0)"

definition StackFrontier_remove :: "StackFrontier \<Rightarrow> error + node \<times> StackFrontier" where
  "StackFrontier_remove fr =
     (if empty_frontier fr then Inl EmptyFrontier
      else Inr (last (frontier fr), fr\<lparr>frontier := butlast (frontier fr)\<rparr>))"

definition QueueFrontier_remove :: "StackFrontier \<Rightarrow> error + node \<times> StackFrontier" where
  "QueueFrontier_remove fr =
     (if empty_frontier fr then Inl EmptyFrontier
      else Inr (hd (frontier fr), fr\<lparr>frontier := tl (frontier fr)\<rparr>))"

text \<open>A client of the queue: a sequence of \<open>add\<close> and \<open>remove\<close> calls, run from a given
  frontier. The result is the list of nodes the \<open>remove\<close> calls returned, in call order,
  and the frontier left; the first \<open>remove\<close> that raises ends the run with its error.\<close>

datatype frontier_op = Add node | Remove

fun run_queue :: "frontier_op list \<Rightarrow> StackFrontier \<Rightarrow> error + node list \<times> StackFrontier" where
  "run_queue [] fr = Inr ([], fr)"
| "run_queue (Add n # ops) fr = run_queue ops (add fr n)"
| "run_queue (Remove # ops) fr =
     (case QueueFrontier_remove fr of
        Inl e \<Rightarrow> Inl e
      | Inr (n, fr') \<Rightarrow>
          (case run_queue ops fr' of
             Inl e \<Rightarrow> Inl e
           | Inr (out, fr'') \<Rightarrow> Inr (n # out, fr'')))"

fun added :: "frontier_op list \<Rightarrow> node list" where
  "added [] = []"
| "added (Add n # ops) = n # added ops"
| "added (Remove # ops) = added ops"

subsection \<open>load_data\<close>

text \<open>
  The three CSV files are given as the lists of rows \<open>csv.DictReader\<close> yields, each row
  with the columns the code reads. Opening and parsing the files is outside the model.
  \<open>str.lower\<close> is modelled on the ASCII letters (a \<open>char\<close> is one byte).
\<close>

record people_row =
  pr_id :: ident
  pr_name :: string
  pr_birth :: string

record movie_row =
  mr_id :: ident
  mr_title :: string
  mr_year :: string

record star_row =
  sr_person_id :: ident
  sr_movie_id :: ident

definition lower_char :: "char \<Rightarrow> char" where
  "lower_char c =
     (if (65::nat) \<le> of_char c \<and> of_char c \<le> (90::nat)
      then char_of (of_char c + (32::nat)) else c)"

definition lower :: "string \<Rightarrow> string" where
  "lower s = map lower_char s"

definition empty_store :: store where
  "empty_store = \<lparr>names = Map.empty, people = Map.empty, movies_tbl = Map.empty\<rparr>"

definition load_person :: "people_row \<Rightarrow> store \<Rightarrow> store" where
  "load_person row st =
     st\<lparr>people := (people st)(pr_id row \<mapsto>
            \<lparr>name = pr_name row, birth = pr_birth row, movies = {}\<rparr>),
        names := (names st)(lower (pr_name row) \<mapsto>
            (case names st (lower (pr_name row)) of
               None \<Rightarrow> {pr_id row}
             | Some ids \<Rightarrow> insert (pr_id row) ids))\<rparr>"

definition load_movie :: "movie_row \<Rightarrow> store \<Rightarrow> store" where
  "load_movie row st =
     st\<lparr>movies_tbl := (movies_tbl st)(mr_id row \<mapsto>
            \<lparr>title = mr_title row, year = mr_year row, stars = {}\<rparr>)\<rparr>"

text \<open>One row of stars.csv. The two updates stand in one \<open>try\<close> block: a \<open>KeyError\<close>
  of the first lookup leaves the store as it was, a \<open>KeyError\<close> of the second lookup is
  caught after the first update has been made.\<close>

definition load_star :: "star_row \<Rightarrow> store \<Rightarrow> store" where
  "load_star row st =
     (case people st (sr_person_id row) of
        None \<Rightarrow> st
      | Some p \<Rightarrow>
          let st1 = st\<lparr>people := (people st)(sr_person_id row \<mapsto>
                         p\<lparr>movies := insert (sr_movie_id row) (movies p)\<rparr>)\<rparr>
          in (case movies_tbl st1 (sr_movie_id row) of
                None \<Rightarrow> st1
              | Some m \<Rightarrow>
                  st1\<lparr>movies_tbl := (movies_tbl st1)(sr_movie_id row \<mapsto>
                         m\<lparr>stars := insert (sr_person_id row) (stars m)\<rparr>)\<rparr>))"

definition load_data ::
  "people_row list \<Rightarrow> movie_row list \<Rightarrow> star_row list \<Rightarrow> store \<Rightarrow> store" where
  "load_data people_csv movies_csv stars_csv st =
     fold load_star stars_csv (fold load_movie movies_csv (fold load_person people_csv st))"

subsection \<open>person_id_for_name\<close>

text \<open>
  The function reads one line from the console in the ambiguous case: the line is the
  argument \<open>reply\<close>. What it prints is not part of the model, but the lookup
  \<open>people[person_id]\<close> made for every candidate while printing is. The result is the
  value returned (or the exception raised) and the store after the call.
  \<open>set.pop()\<close> is only reached on a set of at most one element: it raises \<open>KeyError\<close> on
  the empty set, and removes and returns the element of a one-element set.
\<close>

definition person_id_for_name ::
  "store \<Rightarrow> string \<Rightarrow> string \<Rightarrow> (error + ident option) \<times> store" where
  "person_id_for_name st reply name0 =
     (let name = lower name0 in
      case names st name of
        None \<Rightarrow> (Inr None, st)
      | Some ids \<Rightarrow>
          if card ids > 1 then
            (if \<exists>person_id \<in> ids. people st person_id = None
             then (Inl KeyError, st)
             else (Inr (if reply \<in> ids then Some reply else None), st))
          else if ids = {} then (Inl KeyError, st)
          else (Inr (Some (the_elem ids)),
                st\<lparr>names := (names st)(name \<mapsto> ids - {the_elem ids})\<rparr>))"

subsection \<open>neighbors_for_person\<close>

text \<open>\<open>people[person_id]\<close> and \<open>movies[movie_id]\<close> raise \<open>KeyError\<close> on a missing key; the
  second lookup is made for every movie of the person, so one missing movie makes the
  whole call raise.\<close>

definition neighbors_for_person :: "store \<Rightarrow> ident \<Rightarrow> error + (ident \<times> ident) set" where
  "neighbors_for_person st person_id =
     (case people st person_id of
        None \<Rightarrow> Inl KeyError
      | Some p \<Rightarrow>
          if \<exists>movie_id \<in> movies p. movies_tbl st movie_id = None
          then Inl KeyError
          else Inr (\<Union>movie_id \<in> movies p.
                      (\<lambda>person_id. (movie_id, person_id)) ` stars (the (movies_tbl st movie_id))))"

subsection \<open>shortest_path\<close>

text \<open>
  A path is the list of \<open>(child.action, child.state)\<close> pairs; an action is optional as
  the attribute of \<open>Node\<close> is.

  Python iterates a set in an order that the language leaves open. The order in which
  the set of neighbours is visited is therefore a parameter of the search,
  \<open>order\<close>, from a set to the list of its elements as the \<open>for\<close> loop meets them.
  The order is taken to depend on the elements of the set alone; no proof below uses
  more of it than the elements it lists.
\<close>

type_synonym path = "(ident option \<times> ident) list"

type_synonym iteration_order = "(ident \<times> ident) set \<Rightarrow> (ident \<times> ident) list"

text \<open>The inner \<open>while child.parent is not None\<close> loop, before \<open>path.reverse()\<close>.\<close>

fun collect :: "node \<Rightarrow> path" where
  "collect (Node s None a) = []"
| "collect (Node s (Some p) a) = (a, s) # collect p"

text \<open>The \<open>for\<close> loop over the neighbours of the removed node: it returns from
  \<open>shortest_path\<close> with a path, or ends with the frontier it has extended.\<close>

datatype scan = Found path | Pending StackFrontier

fun for_neighbors ::
  "ident \<Rightarrow> node \<Rightarrow> ident set \<Rightarrow> (ident \<times> ident) list \<Rightarrow> StackFrontier \<Rightarrow> scan" where
  "for_neighbors target_id n explored [] fr = Pending fr"
| "for_neighbors target_id n explored ((movie_id, person_id) # rest) fr =
     (if \<not> contains_state fr person_id \<and> person_id \<notin> explored then
        (let child = Node person_id (Some n) (Some movie_id) in
         if state child = target_id then Found (rev (collect child))
         else for_neighbors target_id n explored rest (add fr child))
      else for_neighbors target_id n explored rest fr)"

text \<open>One pass through the body of \<open>while True\<close>: it returns from \<open>shortest_path\<close>
  (with a value or an exception) or goes round again with a new frontier and explored set.\<close>

datatype pass = Return "error + path option" | Again StackFrontier "ident set"

definition loop_body ::
  "store \<Rightarrow> iteration_order \<Rightarrow> ident \<Rightarrow> StackFrontier \<Rightarrow> ident set \<Rightarrow> pass" where
  "loop_body st order target_id fr explored =
     (if empty_frontier fr then Return (Inr None)
      else case QueueFrontier_remove fr of
        Inl e \<Rightarrow> Return (Inl e)
      | Inr (n, fr1) \<Rightarrow>
          (case neighbors_for_person st (state n) of
             Inl e \<Rightarrow> Return (Inl e)
           | Inr neighbors \<Rightarrow>
               (case for_neighbors target_id n (insert (state n) explored) (order neighbors) fr1 of
                  Found p \<Rightarrow> Return (Inr (Some p))
                | Pending fr2 \<Rightarrow> Again fr2 (insert (state n) explored))))"

text \<open>\<open>while True\<close> may run forever: the value \<open>None\<close> of the outer option stands for a
  loop that never returns.\<close>

partial_function (option) while_true ::
  "store \<Rightarrow> iteration_order \<Rightarrow> ident \<Rightarrow> StackFrontier \<Rightarrow> ident set \<Rightarrow> (error + path option) option"
where
  "while_true st order target_id fr explored =
     (case loop_body st order target_id fr explored of
        Return r \<Rightarrow> Some r
      | Again fr' explored' \<Rightarrow> while_true st order target_id fr' explored')"

declare while_true.simps [code]

definition shortest_path ::
  "store \<Rightarrow> iteration_order \<Rightarrow> ident \<Rightarrow> ident \<Rightarrow> (error + path option) option" where
  "shortest_path st order source_id target_id =
     while_true st order target_id (add init_frontier (Node source_id None None)) {}"

section \<open>Notions of the specification\<close>

subsection \<open>The graph of a store\<close>

text \<open>Person \<open>q\<close> is one hop from person \<open>p\<close> through movie \<open>m\<close>: \<open>p\<close> is known and has
  \<open>m\<close> among its movies, and \<open>m\<close> is known and has \<open>q\<close> among its stars.\<close>

definition linked :: "store \<Rightarrow> ident \<Rightarrow> ident \<Rightarrow> ident \<Rightarrow> bool" where
  "linked st p m q =
     (\<exists>per mv. people st p = Some per \<and> m \<in> movies per \<and>
                movies_tbl st m = Some mv \<and> q \<in> stars mv)"

text \<open>A walk from a person: a list of (movie, person) hops, each one hop from the person
  before. The empty walk ends where it starts.\<close>

fun walk :: "store \<Rightarrow> ident \<Rightarrow> (ident \<times> ident) list \<Rightarrow> bool" where
  "walk st p [] = True"
| "walk st p ((m, q) # w) = (linked st p m q \<and> walk st q w)"

fun walk_end :: "ident \<Rightarrow> (ident \<times> ident) list \<Rightarrow> ident" where
  "walk_end p [] = p"
| "walk_end p ((m, q) # w) = walk_end q w"

definition reachable :: "store \<Rightarrow> ident \<Rightarrow> ident \<Rightarrow> bool" where
  "reachable st s t = (\<exists>w. walk st s w \<and> walk_end s w = t)"

text \<open>The people at most \<open>k\<close> hops away from \<open>s\<close>.\<close>

definition within :: "store \<Rightarrow> ident \<Rightarrow> nat \<Rightarrow> ident set" where
  "within st s k = {v. \<exists>w. walk st s w \<and> walk_end s w = v \<and> length w \<le> k}"

text \<open>The path a search returns, read as a walk: every action is a movie.\<close>

definition as_path :: "(ident \<times> ident) list \<Rightarrow> path" where
  "as_path w = map (\<lambda>(m, q). (Some m, q)) w"

subsection \<open>Well-formed stores and iteration orders\<close>

text \<open>A consistent store: every movie of a person is a key of the movie table, every
  star of a movie is a key of the people table.\<close>

definition consistent :: "store \<Rightarrow> bool" where
  "consistent st =
     ((\<forall>p per. people st p = Some per \<longrightarrow> movies per \<subseteq> dom (movies_tbl st)) \<and>
      (\<forall>m mv. movies_tbl st m = Some mv \<longrightarrow> stars mv \<subseteq> dom (people st)))"

text \<open>Python dictionaries and sets are finite.\<close>

definition finite_store :: "store \<Rightarrow> bool" where
  "finite_store st =
     (finite (dom (people st)) \<and> finite (dom (movies_tbl st)) \<and>
      (\<forall>p per. people st p = Some per \<longrightarrow> finite (movies per)) \<and>
      (\<forall>m mv. movies_tbl st m = Some mv \<longrightarrow> finite (stars mv)))"

text \<open>Iterating over a finite set meets each of its elements once, and nothing else.\<close>

definition enumerates :: "iteration_order \<Rightarrow> bool" where
  "enumerates order = (\<forall>S. finite S \<longrightarrow> set (order S) = S \<and> distinct (order S))"

subsection \<open>The runs of the search loop\<close>

text \<open>The pairs of frontier and explored set with which the head of \<open>while True\<close> is
  reached, starting from a given pair.\<close>

inductive loop_reaches ::
  "store \<Rightarrow> iteration_order \<Rightarrow> ident \<Rightarrow> StackFrontier \<times> ident set \<Rightarrow>
   StackFrontier \<times> ident set \<Rightarrow> bool"
  for st order target_id c
where
  start: "loop_reaches st order target_id c c"
| pass: "loop_reaches st order target_id c (fr, explored) \<Longrightarrow>
         loop_body st order target_id fr explored = Again fr' explored' \<Longrightarrow>
         loop_reaches st order target_id c (fr', explored')"

text \<open>The same for a call of \<open>shortest_path\<close>.\<close>

definition search_reaches ::
  "store \<Rightarrow> iteration_order \<Rightarrow> ident \<Rightarrow> ident \<Rightarrow> StackFrontier \<Rightarrow> ident set \<Rightarrow> bool" where
  "search_reaches st order source_id target_id fr explored =
     loop_reaches st order target_id (add init_frontier (Node source_id None None), {})
       (fr, explored)"

subsection \<open>Invariants of the search loop\<close>

text \<open>The states on the way from a node up to the root, the root left out: the
  second components of what \<open>collect\<close> gathers.\<close>

definition trail :: "node \<Rightarrow> ident list" where
  "trail n = map snd (collect n)"

text \<open>No state is held twice by the frontier, no state of the frontier is explored, and
  the trail of every node of the frontier is free of repetitions, lies in the explored
  set but for the node's own state, and avoids the source, which is the node's own state
  or explored.\<close>

definition tidy :: "ident \<Rightarrow> StackFrontier \<Rightarrow> ident set \<Rightarrow> bool" where
  "tidy s fr ex =
     (distinct (map state (frontier fr)) \<and> state ` set (frontier fr) \<inter> ex = {} \<and>
      (\<forall>n \<in> set (frontier fr).
         distinct (trail n) \<and> set (trail n) \<subseteq> insert (state n) ex \<and>
         s \<notin> set (trail n) \<and> s \<in> insert (state n) ex))"

text \<open>Node \<open>n\<close> spells the walk \<open>w\<close> from \<open>s\<close>: following the parents of \<open>n\<close> and reversing
  gives \<open>w\<close>, which is a walk of the store from \<open>s\<close> to the state of \<open>n\<close>.\<close>

definition spells :: "store \<Rightarrow> ident \<Rightarrow> node \<Rightarrow> (ident \<times> ident) list \<Rightarrow> bool" where
  "spells st s n w = (rev (collect n) = as_path w \<and> walk st s w \<and> walk_end s w = state n)"

text \<open>The breadth-first invariant: the frontier is a block of nodes \<open>k\<close> hops deep followed
  by a block of nodes \<open>k + 1\<close> hops deep; whoever is at most \<open>k\<close> hops from the source is
  explored or in the first block; every neighbour of an explored person is explored or
  in the frontier; the target is neither.\<close>

definition levelled :: "store \<Rightarrow> ident \<Rightarrow> ident \<Rightarrow> StackFrontier \<Rightarrow> ident set \<Rightarrow> bool" where
  "levelled st s t fr ex =
     (\<exists>k A B. frontier fr = A @ B \<and>
        (\<forall>n \<in> set A. \<exists>w. spells st s n w \<and> length w = k) \<and>
        (\<forall>n \<in> set B. \<exists>w. spells st s n w \<and> length w = Suc k) \<and>
        within st s k \<subseteq> ex \<union> state ` set A \<and>
        (\<forall>u \<in> ex. \<forall>m v. linked st u m v \<longrightarrow> v \<in> ex \<union> state ` set (A @ B)) \<and>
        t \<notin> ex \<union> state ` set (A @ B))"

subsection \<open>Fixtures\<close>

text \<open>Four people and two movies: A and B star in m1, B and C in m2, D in nothing.\<close>

definition fixture_people :: "people_row list" where
  "fixture_people =
     [\<lparr>pr_id = ''A'', pr_name = ''Ann'', pr_birth = ''1950''\<rparr>,
      \<lparr>pr_id = ''B'', pr_name = ''Bob'', pr_birth = ''1960''\<rparr>,
      \<lparr>pr_id = ''C'', pr_name = ''Cy'', pr_birth = ''1970''\<rparr>,
      \<lparr>pr_id = ''D'', pr_name = ''Dee'', pr_birth = ''1980''\<rparr>]"

definition fixture_movies :: "movie_row list" where
  "fixture_movies =
     [\<lparr>mr_id = ''m1'', mr_title = ''One'', mr_year = ''1990''\<rparr>,
      \<lparr>mr_id = ''m2'', mr_title = ''Two'', mr_year = ''2000''\<rparr>]"

definition fixture_stars :: "star_row list" where
  "fixture_stars =
     [\<lparr>sr_person_id = ''A'', sr_movie_id = ''m1''\<rparr>,
      \<lparr>sr_person_id = ''B'', sr_movie_id = ''m1''\<rparr>,
      \<lparr>sr_person_id = ''B'', sr_movie_id = ''m2''\<rparr>,
      \<lparr>sr_person_id = ''C'', sr_movie_id = ''m2''\<rparr>]"

definition fixture :: store where
  "fixture = load_data fixture_people fixture_movies fixture_stars empty_store"

text \<open>The same files with one more row in stars.csv, of a known person and a movie that
  movies.csv does not list.\<close>

definition dangling :: store where
  "dangling =
     load_data fixture_people fixture_movies
       (fixture_stars @ [\<lparr>sr_person_id = ''A'', sr_movie_id = ''m9''\<rparr>]) empty_store"

section \<open>The frontier\<close>

lemma empty_frontier_iff: "empty_frontier fr \<longleftrightarrow> frontier fr = []"
  by (simp add: empty_frontier_def)

lemma contains_state_iff: "contains_state fr s \<longleftrightarrow> s \<in> state ` set (frontier fr)"
  by (auto simp: contains_state_def list_ex_iff)

lemma QueueFrontier_remove_Cons:
  "frontier fr = n # rest \<Longrightarrow> QueueFrontier_remove fr = Inr (n, fr\<lparr>frontier := rest\<rparr>)"
  by (simp add: QueueFrontier_remove_def empty_frontier_def)

text \<open>
  Claim C7. Run any sequence of \<open>add\<close> and \<open>remove\<close> calls on a queue frontier. The nodes
  the \<open>remove\<close> calls return, followed by the nodes still held, are the nodes held at the
  start followed by the nodes added, in the order they were added: each \<open>remove\<close> returns
  the earliest-added node still held.
\<close>

theorem queue_frontier_fifo:
  "run_queue ops fr = Inr (out, fr') \<Longrightarrow> out @ frontier fr' = frontier fr @ added ops"
proof (induction ops fr arbitrary: out fr' rule: run_queue.induct)
  case (1 fr)
  then show ?case by simp
next
  case (2 n ops fr)
  then show ?case by (simp add: add_def)
next
  case (3 ops fr)
  from "3.prems" obtain n fr1 where r: "QueueFrontier_remove fr = Inr (n, fr1)"
    by (auto split: sum.splits)
  with "3.prems" obtain out1 where o: "run_queue ops fr1 = Inr (out1, fr')" "out = n # out1"
    by (auto split: sum.splits)
  from r have ne: "frontier fr \<noteq> []" and n: "n = hd (frontier fr)"
    and f1: "frontier fr1 = tl (frontier fr)"
    by (auto simp: QueueFrontier_remove_def empty_frontier_def split: if_splits)
  from "3.IH"[OF r refl o(1)] have "out1 @ frontier fr' = frontier fr1 @ added ops" .
  with o(2) n f1 ne show ?case by (cases "frontier fr") auto
qed

theorem queue_frontier_fifo_witness:
  "run_queue [Add (Node ''A'' None None), Add (Node ''B'' None None), Remove,
              Add (Node ''C'' None None), Remove] init_frontier
     = Inr ([Node ''A'' None None, Node ''B'' None None], \<lparr>frontier = [Node ''C'' None None]\<rparr>)
   \<and> [Node ''A'' None None, Node ''B'' None None] @ [Node ''C'' None None]
     = frontier init_frontier @
       added [Add (Node ''A'' None None), Add (Node ''B'' None None), Remove,
              Add (Node ''C'' None None), Remove]"
proof -
  have run: "run_queue [Add (Node ''A'' None None), Add (Node ''B'' None None), Remove,
              Add (Node ''C'' None None), Remove] init_frontier
     = Inr ([Node ''A'' None None, Node ''B'' None None], \<lparr>frontier = [Node ''C'' None None]\<rparr>)"
    by (simp add: init_frontier_def add_def QueueFrontier_remove_def empty_frontier_def)
  from queue_frontier_fifo [OF run] run show ?thesis by simp
qed

text \<open>
  Claim C9. \<open>remove\<close> on an empty frontier raises the "empty frontier" exception, in the
  stack variant and in the queue variant alike; neither returns a node.
\<close>

theorem remove_empty_fails:
  "empty_frontier fr \<Longrightarrow>
     StackFrontier_remove fr = Inl EmptyFrontier \<and> QueueFrontier_remove fr = Inl EmptyFrontier"
  by (simp add: StackFrontier_remove_def QueueFrontier_remove_def)

theorem remove_empty_fails_witness:
  "empty_frontier init_frontier \<and>
   StackFrontier_remove init_frontier = Inl EmptyFrontier \<and>
   QueueFrontier_remove init_frontier = Inl EmptyFrontier"
proof -
  have e: "empty_frontier init_frontier"
    by (simp add: empty_frontier_def init_frontier_def)
  from remove_empty_fails [OF e] e show ?thesis by simp
qed

section \<open>The search loop, pass by pass\<close>

lemma rev_collect_child:
  "rev (collect (Node q (Some n) (Some m))) = rev (collect n) @ [(Some m, q)]"
  by simp

lemma for_neighbors_Pending:
  "for_neighbors t n ex xs fr = Pending fr' \<Longrightarrow>
   \<exists>new. frontier fr' = frontier fr @ new \<and>
         (\<forall>c \<in> set new. parent c = Some n \<and> (\<exists>m. action c = Some m \<and> (m, state c) \<in> set xs) \<and>
              state c \<notin> ex \<and> state c \<noteq> t \<and> state c \<notin> state ` set (frontier fr)) \<and>
         distinct (map state new) \<and>
         snd ` set xs \<subseteq> ex \<union> state ` set (frontier fr')"
proof (induction t n ex xs fr arbitrary: fr' rule: for_neighbors.induct)
  case (1 t n ex fr)
  then show ?case by simp
next
  case (2 t n ex m q rest fr)
  show ?case
  proof (cases "\<not> contains_state fr q \<and> q \<notin> ex")
    case True
    let ?c = "Node q (Some n) (Some m)"
    from True "2.prems" have qt: "q \<noteq> t"
      and run: "for_neighbors t n ex rest (add fr ?c) = Pending fr'"
      by (auto simp: Let_def split: if_splits)
    from "2.IH"(1) [OF True refl _ run] qt
    obtain new where new: "frontier fr' = frontier (add fr ?c) @ new"
      "\<forall>c \<in> set new. parent c = Some n \<and> (\<exists>m. action c = Some m \<and> (m, state c) \<in> set rest) \<and>
              state c \<notin> ex \<and> state c \<noteq> t \<and> state c \<notin> state ` set (frontier (add fr ?c))"
      "distinct (map state new)"
      "snd ` set rest \<subseteq> ex \<union> state ` set (frontier fr')"
      by auto
    have fadd: "frontier (add fr ?c) = frontier fr @ [?c]" by (simp add: add_def)
    have 1: "frontier fr' = frontier fr @ (?c # new)" using new(1) fadd by simp
    have 2: "parent c = Some n \<and> (\<exists>m'. action c = Some m' \<and> (m', state c) \<in> set ((m, q) # rest)) \<and>
              state c \<notin> ex \<and> state c \<noteq> t \<and> state c \<notin> state ` set (frontier fr)"
      if "c \<in> set (?c # new)" for c
    proof (cases "c = ?c")
      case True
      with \<open>\<not> contains_state fr q \<and> q \<notin> ex\<close> qt show ?thesis
        by (simp add: contains_state_iff)
    next
      case False
      with that have "c \<in> set new" by simp
      with new(2) fadd show ?thesis by auto
    qed
    have "state c \<noteq> q" if "c \<in> set new" for c
      using new(2) that fadd by auto
    then have 3: "distinct (map state (?c # new))"
      using new(3) by auto
    have 4: "snd ` set ((m, q) # rest) \<subseteq> ex \<union> state ` set (frontier fr')"
      using new(4) 1 by auto
    from 1 2 3 4 show ?thesis by blast
  next
    case False
    with "2.prems" have run: "for_neighbors t n ex rest fr = Pending fr'"
      by (auto split: if_splits)
    from "2.IH"(2) [OF False run]
    obtain new where new: "frontier fr' = frontier fr @ new"
      "\<forall>c \<in> set new. parent c = Some n \<and> (\<exists>m. action c = Some m \<and> (m, state c) \<in> set rest) \<and>
              state c \<notin> ex \<and> state c \<noteq> t \<and> state c \<notin> state ` set (frontier fr)"
      "distinct (map state new)"
      "snd ` set rest \<subseteq> ex \<union> state ` set (frontier fr')"
      by auto
    have 2: "\<forall>c \<in> set new. parent c = Some n \<and>
              (\<exists>m'. action c = Some m' \<and> (m', state c) \<in> set ((m, q) # rest)) \<and>
              state c \<notin> ex \<and> state c \<noteq> t \<and> state c \<notin> state ` set (frontier fr)"
      using new(2) by auto
    have 4: "snd ` set ((m, q) # rest) \<subseteq> ex \<union> state ` set (frontier fr')"
      using new(4) new(1) False by (auto simp: contains_state_iff)
    from new(1) 2 new(3) 4 show ?thesis by blast
  qed
qed

lemma for_neighbors_Found:
  "for_neighbors t n ex xs fr = Found p \<Longrightarrow>
   \<exists>m. (m, t) \<in> set xs \<and> t \<notin> ex \<and> t \<notin> state ` set (frontier fr) \<and>
       p = rev (collect n) @ [(Some m, t)]"
proof (induction t n ex xs fr rule: for_neighbors.induct)
  case (1 t n ex fr)
  then show ?case by simp
next
  case (2 t n ex m q rest fr)
  show ?case
  proof (cases "\<not> contains_state fr q \<and> q \<notin> ex")
    case True
    show ?thesis
    proof (cases "q = t")
      case qt: True
      with True "2.prems" have "p = rev (collect n) @ [(Some m, t)]"
        by (auto simp: Let_def)
      with True qt show ?thesis by (auto simp: contains_state_iff)
    next
      case qt: False
      with True "2.prems"
      have run: "for_neighbors t n ex rest (add fr (Node q (Some n) (Some m))) = Found p"
        by (auto simp: Let_def)
      from "2.IH"(1) [OF True refl _ run] qt show ?thesis
        by (auto simp: add_def)
    qed
  next
    case False
    with "2.prems" have run: "for_neighbors t n ex rest fr = Found p"
      by (auto split: if_splits)
    from "2.IH"(2) [OF False run] show ?thesis by auto
  qed
qed

lemma loop_body_Again:
  assumes "loop_body st order t fr ex = Again fr' ex'"
  obtains n rest nb new where
    "frontier fr = n # rest" "ex' = insert (state n) ex"
    "neighbors_for_person st (state n) = Inr nb"
    "frontier fr' = rest @ new"
    "\<forall>c \<in> set new. parent c = Some n \<and> (\<exists>m. action c = Some m \<and> (m, state c) \<in> set (order nb)) \<and>
              state c \<notin> ex' \<and> state c \<noteq> t \<and> state c \<notin> state ` set rest"
    "distinct (map state new)"
    "snd ` set (order nb) \<subseteq> ex' \<union> state ` set (frontier fr')"
proof -
  from assms have ne: "frontier fr \<noteq> []"
    by (auto simp: loop_body_def empty_frontier_iff split: if_splits)
  then obtain n rest where fr: "frontier fr = n # rest" by (cases "frontier fr") auto
  have rm: "QueueFrontier_remove fr = Inr (n, fr\<lparr>frontier := rest\<rparr>)"
    using fr by (rule QueueFrontier_remove_Cons)
  from assms fr rm obtain nb where nb: "neighbors_for_person st (state n) = Inr nb"
    by (auto simp: loop_body_def empty_frontier_iff split: sum.splits)
  from assms fr rm nb
  have run: "for_neighbors t n (insert (state n) ex) (order nb) (fr\<lparr>frontier := rest\<rparr>) = Pending fr'"
    and ex': "ex' = insert (state n) ex"
    by (auto simp: loop_body_def empty_frontier_iff split: scan.splits)
  from for_neighbors_Pending [OF run] obtain new where new:
    "frontier fr' = frontier (fr\<lparr>frontier := rest\<rparr>) @ new"
    "\<forall>c \<in> set new. parent c = Some n \<and> (\<exists>m. action c = Some m \<and> (m, state c) \<in> set (order nb)) \<and>
              state c \<notin> insert (state n) ex \<and> state c \<noteq> t \<and>
              state c \<notin> state ` set (frontier (fr\<lparr>frontier := rest\<rparr>))"
    "distinct (map state new)"
    "snd ` set (order nb) \<subseteq> insert (state n) ex \<union> state ` set (frontier fr')"
    by blast
  show thesis
  proof (rule that [of n rest nb new])
    show "frontier fr = n # rest" by fact
    show "ex' = insert (state n) ex" by fact
    show "neighbors_for_person st (state n) = Inr nb" by fact
    show "frontier fr' = rest @ new" using new(1) by simp
    show "\<forall>c \<in> set new. parent c = Some n \<and>
              (\<exists>m. action c = Some m \<and> (m, state c) \<in> set (order nb)) \<and>
              state c \<notin> ex' \<and> state c \<noteq> t \<and> state c \<notin> state ` set rest"
      using new(2) unfolding ex' by simp
    show "distinct (map state new)" by fact
    show "snd ` set (order nb) \<subseteq> ex' \<union> state ` set (frontier fr')"
      using new(4) unfolding ex' .
  qed
qed

lemma loop_body_Return:
  assumes "loop_body st order t fr ex = Return r"
  obtains (empty) "frontier fr = []" "r = Inr None"
  | (raised) n rest where "frontier fr = n # rest"
      "neighbors_for_person st (state n) = Inl KeyError" "r = Inl KeyError"
  | (found) n rest nb m where "frontier fr = n # rest"
      "neighbors_for_person st (state n) = Inr nb" "(m, t) \<in> set (order nb)"
      "t \<notin> insert (state n) ex" "t \<notin> state ` set rest"
      "r = Inr (Some (rev (collect n) @ [(Some m, t)]))"
proof (cases "frontier fr")
  case Nil
  with assms have "r = Inr None" by (simp add: loop_body_def empty_frontier_iff)
  with Nil show thesis by (rule empty)
next
  case (Cons n rest)
  have rm: "QueueFrontier_remove fr = Inr (n, fr\<lparr>frontier := rest\<rparr>)"
    using Cons by (rule QueueFrontier_remove_Cons)
  show thesis
  proof (cases "neighbors_for_person st (state n)")
    case (Inl e)
    then have "e = KeyError" by (cases e) (auto simp: neighbors_for_person_def split: option.splits if_splits)
    with assms Cons rm Inl show thesis
      by (intro raised [of n rest]) (auto simp: loop_body_def empty_frontier_iff)
  next
    case (Inr nb)
    with assms Cons rm obtain p where
      run: "for_neighbors t n (insert (state n) ex) (order nb) (fr\<lparr>frontier := rest\<rparr>) = Found p"
      and r: "r = Inr (Some p)"
      by (auto simp: loop_body_def empty_frontier_iff split: scan.splits)
    from for_neighbors_Found [OF run] r Cons Inr show thesis
      by (auto intro: found [of n rest nb])
  qed
qed

lemma loop_reaches_first:
  assumes "loop_body st order t fr ex = Again fr1 ex1"
    and "loop_reaches st order t (fr1, ex1) c"
  shows "loop_reaches st order t (fr, ex) c"
  using assms(2)
proof (induction rule: loop_reaches.induct)
  case start
  show ?case by (rule loop_reaches.pass [OF loop_reaches.start assms(1)])
next
  case (pass fr2 ex2 fr3 ex3)
  then show ?case by (auto intro: loop_reaches.pass)
qed

lemma while_true_reaches:
  assumes "while_true st0 order0 t0 fr0 ex0 = Some r0"
  shows "\<exists>fr' ex'. loop_reaches st0 order0 t0 (fr0, ex0) (fr', ex') \<and>
             loop_body st0 order0 t0 fr' ex' = Return r0"
proof (rule while_true.raw_induct [where P = "\<lambda>st order t fr ex r.
    \<exists>fr' ex'. loop_reaches st order t (fr, ex) (fr', ex') \<and>
              loop_body st order t fr' ex' = Return r", rotated])
  show "while_true st0 order0 t0 fr0 ex0 = Some r0" by fact
next
  fix wt st order t fr ex r
  assume ih: "\<And>st' order' t' fr' ex' y. wt st' order' t' fr' ex' = Some y \<Longrightarrow>
      \<exists>fr'' ex''. loop_reaches st' order' t' (fr', ex') (fr'', ex'') \<and>
                 loop_body st' order' t' fr'' ex'' = Return y"
  assume eq: "(case loop_body st order t fr ex of Return r \<Rightarrow> Some r
               | Again fr' ex' \<Rightarrow> wt st order t fr' ex') = Some r"
  show "\<exists>fr' ex'. loop_reaches st order t (fr, ex) (fr', ex') \<and>
              loop_body st order t fr' ex' = Return r"
  proof (cases "loop_body st order t fr ex")
    case (Return r')
    with eq have "r' = r" by simp
    with Return show ?thesis by (auto intro: loop_reaches.start)
  next
    case (Again fr1 ex1)
    with eq have "wt st order t fr1 ex1 = Some r" by simp
    from ih [OF this] obtain fr' ex' where
      "loop_reaches st order t (fr1, ex1) (fr', ex')" "loop_body st order t fr' ex' = Return r"
      by blast
    with Again show ?thesis by (blast intro: loop_reaches_first)
  qed
qed

lemma trail_parent: "parent c = Some n \<Longrightarrow> trail c = state c # trail n"
  by (cases c) (simp add: trail_def)

lemma collect_parent: "parent c = Some n \<Longrightarrow> collect c = (action c, state c) # collect n"
  by (cases c) simp

lemma tidy_start: "tidy s (add init_frontier (Node s None None)) {}"
  by (simp add: tidy_def add_def init_frontier_def trail_def)

lemma tidy_pass:
  assumes inv: "tidy s fr ex" and body: "loop_body st order t fr ex = Again fr' ex'"
  shows "tidy s fr' ex'"
proof -
  from body obtain n rest nb new where
    fr: "frontier fr = n # rest" and ex': "ex' = insert (state n) ex"
    and fr': "frontier fr' = rest @ new"
    and new: "\<forall>c \<in> set new. parent c = Some n \<and>
              (\<exists>m. action c = Some m \<and> (m, state c) \<in> set (order nb)) \<and>
              state c \<notin> ex' \<and> state c \<noteq> t \<and> state c \<notin> state ` set rest"
    and dnew: "distinct (map state new)"
    by (rule loop_body_Again)
  from new have new_par: "\<And>c. c \<in> set new \<Longrightarrow> parent c = Some n"
    and new_ex: "\<And>c. c \<in> set new \<Longrightarrow> state c \<notin> ex'"
    by blast+
  have new_rest: "state r \<noteq> state c" if "c \<in> set new" "r \<in> set rest" for c r
  proof
    assume "state r = state c"
    with that(2) have "state c \<in> state ` set rest" by (metis imageI)
    moreover from new that(1) have "state c \<notin> state ` set rest" by blast
    ultimately show False by simp
  qed
  from inv fr have d: "distinct (map state rest)" and nr: "state n \<notin> state ` set rest"
    and dis: "state ` set rest \<inter> ex = {}"
    and n: "distinct (trail n)" "set (trail n) \<subseteq> ex'" "s \<notin> set (trail n)" "s \<in> ex'"
    and rest: "\<And>c. c \<in> set rest \<Longrightarrow> distinct (trail c) \<and> set (trail c) \<subseteq> insert (state c) ex \<and>
         s \<notin> set (trail c) \<and> s \<in> insert (state c) ex"
    by (auto simp: tidy_def ex')
  have "state ` set rest \<inter> state ` set new = {}"
    using new_rest by auto
  with d dnew have 1: "distinct (map state (rest @ new))"
    by simp
  have "state ` set rest \<inter> ex' = {}" using dis nr by (auto simp: ex')
  moreover have "state ` set new \<inter> ex' = {}" using new_ex by auto
  ultimately have 2: "state ` set (rest @ new) \<inter> ex' = {}"
    by (simp add: image_Un Int_Un_distrib2)
  have 3: "distinct (trail c) \<and> set (trail c) \<subseteq> insert (state c) ex' \<and>
         s \<notin> set (trail c) \<and> s \<in> insert (state c) ex'" if c: "c \<in> set (rest @ new)" for c
  proof (cases "c \<in> set rest")
    case True
    from rest [OF True] show ?thesis unfolding ex' by blast
  next
    case False
    with c have cn: "c \<in> set new" by simp
    have tc: "trail c = state c # trail n" using new_par [OF cn] by (rule trail_parent)
    from new_ex [OF cn] n show ?thesis unfolding tc by auto
  qed
  from 1 2 3 show ?thesis unfolding tidy_def fr' by blast
qed

lemma tidy_loop_reaches:
  "loop_reaches st order t c c' \<Longrightarrow> tidy s (fst c) (snd c) \<Longrightarrow> tidy s (fst c') (snd c')"
  by (induction rule: loop_reaches.induct) (auto intro: tidy_pass)

lemma search_reaches_tidy: "search_reaches st order s t fr ex \<Longrightarrow> tidy s fr ex"
  using tidy_loop_reaches [of st order t "(add init_frontier (Node s None None), {})" "(fr, ex)" s]
  by (simp add: search_reaches_def tidy_start)

lemma shortest_path_returns:
  assumes "shortest_path st order s t = Some r"
  obtains fr ex where "search_reaches st order s t fr ex" "loop_body st order t fr ex = Return r"
  using while_true_reaches [of st order t "add init_frontier (Node s None None)" "{}" r] assms
  by (auto simp: shortest_path_def search_reaches_def)

lemma while_true_terminates:
  assumes fin: "finite (dom (people st))"
  shows "tidy s fr ex \<Longrightarrow> \<exists>r. while_true st order t fr ex = Some r"
proof (induction "card (dom (people st) - ex)" arbitrary: fr ex rule: less_induct)
  case less
  show ?case
  proof (cases "loop_body st order t fr ex")
    case (Return r)
    then show ?thesis by (subst while_true.simps) simp
  next
    case (Again fr' ex')
    then obtain n rest nb where fr: "frontier fr = n # rest" and ex': "ex' = insert (state n) ex"
      and nb: "neighbors_for_person st (state n) = Inr nb"
      by (rule loop_body_Again)
    from nb have known: "state n \<in> dom (people st)"
      by (auto simp: neighbors_for_person_def split: option.splits)
    from less.prems fr have new: "state n \<notin> ex" by (auto simp: tidy_def)
    have "dom (people st) - ex' \<subset> dom (people st) - ex"
      using known new by (auto simp: ex')
    with fin have "card (dom (people st) - ex') < card (dom (people st) - ex)"
      by (intro psubset_card_mono) auto
    moreover have "tidy s fr' ex'" using less.prems Again by (rule tidy_pass)
    ultimately obtain r where "while_true st order t fr' ex' = Some r"
      using less.hyps by blast
    with Again show ?thesis by (subst while_true.simps) simp
  qed
qed

lemma shortest_path_terminates:
  "finite (dom (people st)) \<Longrightarrow> \<exists>r. shortest_path st order s t = Some r"
  unfolding shortest_path_def by (rule while_true_terminates [OF _ tidy_start])

section \<open>Neighbours and walks\<close>

lemma neighbors_Inr_iff:
  assumes "neighbors_for_person st p = Inr nb"
  shows "(m, q) \<in> nb \<longleftrightarrow> linked st p m q"
proof -
  from assms obtain per where per: "people st p = Some per"
    and all: "\<not> (\<exists>movie_id \<in> movies per. movies_tbl st movie_id = None)"
    and nb: "nb = (\<Union>movie_id \<in> movies per.
                 (\<lambda>person_id. (movie_id, person_id)) ` stars (the (movies_tbl st movie_id)))"
    by (auto simp: neighbors_for_person_def split: option.splits if_splits)
  show ?thesis
  proof
    assume "(m, q) \<in> nb"
    with nb have m: "m \<in> movies per" and q: "q \<in> stars (the (movies_tbl st m))" by auto
    from m all obtain mv where "movies_tbl st m = Some mv" by auto
    with per m q show "linked st p m q" by (auto simp: linked_def)
  next
    assume "linked st p m q"
    with per obtain mv where "m \<in> movies per" "movies_tbl st m = Some mv" "q \<in> stars mv"
      by (auto simp: linked_def)
    then have "m \<in> movies per"
      and "(m, q) \<in> (\<lambda>person_id. (m, person_id)) ` stars (the (movies_tbl st m))"
      by simp_all
    then show "(m, q) \<in> nb" unfolding nb by blast
  qed
qed

lemma neighbors_finite:
  assumes "finite_store st" "neighbors_for_person st p = Inr nb"
  shows "finite nb"
proof -
  from assms(2) obtain per where per: "people st p = Some per"
    and all: "\<not> (\<exists>movie_id \<in> movies per. movies_tbl st movie_id = None)"
    and nb: "nb = (\<Union>movie_id \<in> movies per.
                 (\<lambda>person_id. (movie_id, person_id)) ` stars (the (movies_tbl st movie_id)))"
    by (auto simp: neighbors_for_person_def split: option.splits if_splits)
  from assms(1) per have "finite (movies per)" by (auto simp: finite_store_def)
  moreover have "finite (stars (the (movies_tbl st m)))" if "m \<in> movies per" for m
  proof -
    from that all obtain mv where "movies_tbl st m = Some mv" by auto
    with assms(1) show ?thesis by (auto simp: finite_store_def)
  qed
  ultimately show ?thesis unfolding nb by blast
qed

lemma neighbors_order:
  assumes "enumerates order" "finite_store st" "neighbors_for_person st p = Inr nb"
  shows "(m, q) \<in> set (order nb) \<longleftrightarrow> linked st p m q"
proof -
  from assms(2,3) have "finite nb" by (rule neighbors_finite)
  with assms(1) have "set (order nb) = nb" by (simp add: enumerates_def)
  with neighbors_Inr_iff [OF assms(3)] show ?thesis by simp
qed

lemma neighbors_unknown: "people st p = None \<Longrightarrow> neighbors_for_person st p = Inl KeyError"
  by (simp add: neighbors_for_person_def)

lemma neighbors_consistent:
  assumes "consistent st" "p \<in> dom (people st)"
  shows "\<exists>nb. neighbors_for_person st p = Inr nb"
proof -
  from assms(2) obtain per where per: "people st p = Some per" by auto
  with assms(1) have "movies per \<subseteq> dom (movies_tbl st)" by (auto simp: consistent_def)
  then have "\<not> (\<exists>movie_id \<in> movies per. movies_tbl st movie_id = None)" by auto
  with per show ?thesis by (simp add: neighbors_for_person_def)
qed

lemma linked_known:
  assumes "consistent st" "linked st p m q"
  shows "q \<in> dom (people st)"
proof -
  from assms(2) obtain mv where mv: "movies_tbl st m = Some mv" "q \<in> stars mv"
    by (auto simp: linked_def)
  from assms(1) mv(1) have "stars mv \<subseteq> dom (people st)"
    unfolding consistent_def by blast
  with mv(2) show ?thesis by blast
qed

lemma walk_snoc: "walk st p (w @ [(m, q)]) \<longleftrightarrow> walk st p w \<and> linked st (walk_end p w) m q"
  by (induction st p w rule: walk.induct) auto

lemma walk_end_snoc: "walk_end p (w @ [(m, q)]) = q"
  by (induction p w rule: walk_end.induct) auto

lemma walk_end_known:
  "consistent st \<Longrightarrow> walk st p w \<Longrightarrow> p \<in> dom (people st) \<Longrightarrow> walk_end p w \<in> dom (people st)"
  by (induction st p w rule: walk.induct) (auto dest: linked_known)

lemma walk_end_closed:
  assumes "\<forall>u \<in> ex. \<forall>m v. linked st u m v \<longrightarrow> v \<in> ex"
  shows "walk st p w \<Longrightarrow> p \<in> ex \<Longrightarrow> walk_end p w \<in> ex"
  using assms by (induction st p w rule: walk.induct) auto

lemma source_within: "s \<in> within st s k"
  unfolding within_def by (rule CollectI, rule exI [of _ "[]"]) simp

lemma within_Suc:
  assumes "v \<in> within st s (Suc k)"
  shows "v \<in> within st s k \<or> (\<exists>u m. u \<in> within st s k \<and> linked st u m v)"
proof -
  from assms obtain w where w: "walk st s w" "walk_end s w = v" "length w \<le> Suc k"
    by (auto simp: within_def)
  show ?thesis
  proof (cases "length w \<le> k")
    case True
    with w show ?thesis by (auto simp: within_def)
  next
    case False
    with w(3) have "w \<noteq> []" by auto
    then obtain w' x where "w = w' @ [x]" by (cases w rule: rev_cases) auto
    moreover obtain m q where "x = (m, q)" by (cases x)
    ultimately have ww: "w = w' @ [(m, q)]" by simp
    with w have "walk st s w'" "linked st (walk_end s w') m v" "length w' \<le> k"
      by (auto simp: walk_snoc walk_end_snoc)
    then have "walk_end s w' \<in> within st s k \<and> linked st (walk_end s w') m v"
      by (auto simp: within_def)
    then show ?thesis by blast
  qed
qed

lemma spells_root: "spells st s (Node s None None) []"
  by (simp add: spells_def as_path_def)

lemma spells_child:
  assumes "spells st s n w" "parent c = Some n" "action c = Some m"
    "linked st (state n) m (state c)"
  shows "spells st s c (w @ [(m, state c)])"
  using assms by (simp add: spells_def as_path_def collect_parent walk_snoc walk_end_snoc)

lemma loop_reaches_invariant:
  assumes "loop_reaches st order t c c'" and "I (fst c) (snd c)"
    and "\<And>fr ex fr' ex'. I fr ex \<Longrightarrow> loop_body st order t fr ex = Again fr' ex' \<Longrightarrow> I fr' ex'"
  shows "I (fst c') (snd c')"
  using assms by (induction rule: loop_reaches.induct) auto

lemma search_reaches_invariant:
  assumes "search_reaches st order s t fr ex"
    and "I (add init_frontier (Node s None None)) {}"
    and "\<And>fr ex fr' ex'. I fr ex \<Longrightarrow> loop_body st order t fr ex = Again fr' ex' \<Longrightarrow> I fr' ex'"
  shows "I fr ex"
  using loop_reaches_invariant [of st order t "(add init_frontier (Node s None None), {})"
      "(fr, ex)" I] assms
  by (simp add: search_reaches_def)

section \<open>The breadth-first invariant\<close>

lemma levelled_start:
  assumes "s \<noteq> t"
  shows "levelled st s t (add init_frontier (Node s None None)) {}"
proof -
  let ?A = "[Node s None None]"
  have w0: "within st s 0 \<subseteq> {} \<union> state ` set ?A"
  proof
    fix v assume "v \<in> within st s 0"
    then obtain w where "walk_end s w = v" "length w \<le> 0" by (auto simp: within_def)
    then have "v = s" by simp
    then show "v \<in> {} \<union> state ` set ?A" by simp
  qed
  have "frontier (add init_frontier (Node s None None)) = ?A @ []"
    by (simp add: add_def init_frontier_def)
  moreover have "\<forall>n \<in> set ?A. \<exists>w. spells st s n w \<and> length w = 0"
    using spells_root [of st s] by auto
  moreover have "\<forall>n \<in> set []. \<exists>w. spells st s n w \<and> length w = Suc 0" by simp
  moreover have "\<forall>u \<in> {}. \<forall>m v. linked st u m v \<longrightarrow> v \<in> {} \<union> state ` set (?A @ [])"
    by simp
  moreover have "t \<notin> {} \<union> state ` set (?A @ [])" using assms by simp
  ultimately show ?thesis unfolding levelled_def using w0 by blast
qed

lemma levelled_head:
  assumes "levelled st s t fr ex" "frontier fr = n # rest"
  obtains k A B w where "rest = A @ B"
    "spells st s n w" "length w = k"
    "\<forall>a \<in> set A. \<exists>w. spells st s a w \<and> length w = k"
    "\<forall>b \<in> set B. \<exists>w. spells st s b w \<and> length w = Suc k"
    "within st s k \<subseteq> insert (state n) ex \<union> state ` set A"
    "\<forall>u \<in> ex. \<forall>m v. linked st u m v \<longrightarrow> v \<in> insert (state n) ex \<union> state ` set rest"
    "t \<notin> insert (state n) ex \<union> state ` set rest"
proof -
  from assms(1) obtain k A B where inv: "frontier fr = A @ B"
    "\<forall>n \<in> set A. \<exists>w. spells st s n w \<and> length w = k"
    "\<forall>n \<in> set B. \<exists>w. spells st s n w \<and> length w = Suc k"
    "within st s k \<subseteq> ex \<union> state ` set A"
    "\<forall>u \<in> ex. \<forall>m v. linked st u m v \<longrightarrow> v \<in> ex \<union> state ` set (A @ B)"
    "t \<notin> ex \<union> state ` set (A @ B)"
    unfolding levelled_def by blast
  have seen: "ex \<union> state ` set (A @ B) = insert (state n) ex \<union> state ` set rest"
    using inv(1) assms(2) by (metis Un_insert_left Un_insert_right image_insert list.simps(15))
  show thesis
  proof (cases A)
    case (Cons a A')
    with inv(1) assms(2) have a: "a = n" and rest: "rest = A' @ B" by auto
    from inv(2) Cons a obtain w where w: "spells st s n w" "length w = k" by auto
    show thesis
    proof (rule that [of A' B w k])
      show "rest = A' @ B" by fact
      show "spells st s n w" "length w = k" by fact+
      show "\<forall>a \<in> set A'. \<exists>w. spells st s a w \<and> length w = k" using inv(2) Cons by simp
      show "\<forall>b \<in> set B. \<exists>w. spells st s b w \<and> length w = Suc k" by fact
      show "within st s k \<subseteq> insert (state n) ex \<union> state ` set A'"
        using inv(4) Cons a by auto
      show "\<forall>u \<in> ex. \<forall>m v. linked st u m v \<longrightarrow> v \<in> insert (state n) ex \<union> state ` set rest"
        using inv(5) unfolding seen .
      show "t \<notin> insert (state n) ex \<union> state ` set rest"
        using inv(6) unfolding seen .
    qed
  next
    case Nil
    with inv(1) assms(2) have B: "B = n # rest" by simp
    from inv(3) B obtain w where w: "spells st s n w" "length w = Suc k" by auto
    from inv(4) Nil have wk: "within st s k \<subseteq> ex" by simp
    have closed: "\<forall>u \<in> ex. \<forall>m v. linked st u m v \<longrightarrow>
        v \<in> insert (state n) ex \<union> state ` set rest"
      using inv(5) unfolding seen .
    have wk1: "within st s (Suc k) \<subseteq> insert (state n) ex \<union> state ` set rest"
    proof
      fix v assume "v \<in> within st s (Suc k)"
      from within_Suc [OF this] show "v \<in> insert (state n) ex \<union> state ` set rest"
      proof
        assume "v \<in> within st s k"
        with wk show ?thesis by blast
      next
        assume "\<exists>u m. u \<in> within st s k \<and> linked st u m v"
        then obtain u m where "u \<in> within st s k" "linked st u m v" by blast
        with wk closed show ?thesis by blast
      qed
    qed
    show thesis
    proof (rule that [of rest "[]" w "Suc k"])
      show "rest = rest @ []" by simp
      show "spells st s n w" "length w = Suc k" by fact+
      show "\<forall>a \<in> set rest. \<exists>w. spells st s a w \<and> length w = Suc k" using inv(3) B by simp
      show "\<forall>b \<in> set []. \<exists>w. spells st s b w \<and> length w = Suc (Suc k)" by simp
      show "within st s (Suc k) \<subseteq> insert (state n) ex \<union> state ` set rest" by fact
      show "\<forall>u \<in> ex. \<forall>m v. linked st u m v \<longrightarrow> v \<in> insert (state n) ex \<union> state ` set rest"
        by fact
      show "t \<notin> insert (state n) ex \<union> state ` set rest"
        using inv(6) unfolding seen .
    qed
  qed
qed

lemma levelled_pass:
  assumes ord: "enumerates order" and fin: "finite_store st"
    and inv: "levelled st s t fr ex" and body: "loop_body st order t fr ex = Again fr' ex'"
  shows "levelled st s t fr' ex'"
proof -
  from body obtain n rest nb new where
    fr: "frontier fr = n # rest" and ex': "ex' = insert (state n) ex"
    and nb: "neighbors_for_person st (state n) = Inr nb"
    and fr': "frontier fr' = rest @ new"
    and new: "\<forall>c \<in> set new. parent c = Some n \<and>
              (\<exists>m. action c = Some m \<and> (m, state c) \<in> set (order nb)) \<and>
              state c \<notin> ex' \<and> state c \<noteq> t \<and> state c \<notin> state ` set rest"
    and all: "snd ` set (order nb) \<subseteq> ex' \<union> state ` set (frontier fr')"
    by (rule loop_body_Again)
  from inv fr obtain k A B w where rest: "rest = A @ B"
    and w: "spells st s n w" "length w = k"
    and A: "\<forall>a \<in> set A. \<exists>w. spells st s a w \<and> length w = k"
    and B: "\<forall>b \<in> set B. \<exists>w. spells st s b w \<and> length w = Suc k"
    and wk: "within st s k \<subseteq> ex' \<union> state ` set A"
    and closed: "\<forall>u \<in> ex. \<forall>m v. linked st u m v \<longrightarrow> v \<in> ex' \<union> state ` set rest"
    and t: "t \<notin> ex' \<union> state ` set rest"
    unfolding ex' by (rule levelled_head)
  have 1: "frontier fr' = A @ (B @ new)" using fr' rest by simp
  have 3: "\<exists>w. spells st s c w \<and> length w = Suc k" if c: "c \<in> set (B @ new)" for c
  proof (cases "c \<in> set B")
    case True
    with B show ?thesis by blast
  next
    case False
    with c have "c \<in> set new" by simp
    with new obtain m where par: "parent c = Some n" and act: "action c = Some m"
      and mem: "(m, state c) \<in> set (order nb)" by blast
    from mem have "linked st (state n) m (state c)"
      using neighbors_order [OF ord fin nb] by simp
    from spells_child [OF w(1) par act this] w(2) show ?thesis by auto
  qed
  have 5: "v \<in> ex' \<union> state ` set (A @ (B @ new))" if u: "u \<in> ex'" and l: "linked st u m v"
    for u m v
  proof (cases "u = state n")
    case True
    with l have "(m, v) \<in> set (order nb)"
      using neighbors_order [OF ord fin nb] by simp
    then have "v \<in> snd ` set (order nb)" by force
    with all show ?thesis unfolding 1 by blast
  next
    case False
    with u have "u \<in> ex" by (simp add: ex')
    with closed l have "v \<in> ex' \<union> state ` set rest" by blast
    then show ?thesis unfolding rest by auto
  qed
  have "state c \<noteq> t" if "c \<in> set new" for c using new that by blast
  then have "t \<notin> state ` set new" by auto
  with t have 6: "t \<notin> ex' \<union> state ` set (A @ (B @ new))"
    unfolding rest by auto
  show ?thesis unfolding levelled_def
  proof (intro exI conjI)
    show "frontier fr' = A @ (B @ new)" by fact
    show "\<forall>n \<in> set A. \<exists>w. spells st s n w \<and> length w = k" by fact
    show "\<forall>n \<in> set (B @ new). \<exists>w. spells st s n w \<and> length w = Suc k" using 3 by blast
    show "within st s k \<subseteq> ex' \<union> state ` set A" by fact
    show "\<forall>u \<in> ex'. \<forall>m v. linked st u m v \<longrightarrow> v \<in> ex' \<union> state ` set (A @ (B @ new))"
      using 5 by blast
    show "t \<notin> ex' \<union> state ` set (A @ (B @ new))" by fact
  qed
qed

lemma search_reaches_levelled:
  assumes "enumerates order" "finite_store st" "s \<noteq> t" "search_reaches st order s t fr ex"
  shows "levelled st s t fr ex"
  using assms(4)
proof (rule search_reaches_invariant)
  show "levelled st s t (add init_frontier (Node s None None)) {}"
    using assms(3) by (rule levelled_start)
next
  fix fr ex fr' ex'
  assume "levelled st s t fr ex" "loop_body st order t fr ex = Again fr' ex'"
  with assms(1,2) show "levelled st s t fr' ex'" by (rule levelled_pass)
qed

lemma levelled_none:
  assumes "levelled st s t fr ex" "frontier fr = []"
  shows "\<not> reachable st s t"
proof
  assume "reachable st s t"
  then obtain w where w: "walk st s w" "walk_end s w = t" by (auto simp: reachable_def)
  from assms obtain k where wk: "within st s k \<subseteq> ex"
    and closed: "\<forall>u \<in> ex. \<forall>m v. linked st u m v \<longrightarrow> v \<in> ex" and t: "t \<notin> ex"
    unfolding levelled_def by auto
  from source_within wk have "s \<in> ex" by blast
  with walk_end_closed [OF closed w(1)] w(2) t show False by simp
qed

lemma levelled_found:
  assumes ord: "enumerates order" and fin: "finite_store st"
    and inv: "levelled st s t fr ex"
    and fr: "frontier fr = n # rest"
    and nb: "neighbors_for_person st (state n) = Inr nb"
    and mem: "(m, t) \<in> set (order nb)"
  shows "\<exists>w. rev (collect n) @ [(Some m, t)] = as_path w \<and> walk st s w \<and> walk_end s w = t \<and>
             (\<forall>w'. walk st s w' \<and> walk_end s w' = t \<longrightarrow> length w \<le> length w')"
proof -
  from inv fr obtain k A B w where w: "spells st s n w" "length w = k"
    and wk: "within st s k \<subseteq> insert (state n) ex \<union> state ` set A"
    and rest: "rest = A @ B"
    and t: "t \<notin> insert (state n) ex \<union> state ` set rest"
    by (rule levelled_head)
  from mem have l: "linked st (state n) m t"
    using neighbors_order [OF ord fin nb] by simp
  let ?w = "w @ [(m, t)]"
  from w(1) l have 1: "rev (collect n) @ [(Some m, t)] = as_path ?w"
    and 2: "walk st s ?w" and 3: "walk_end s ?w = t"
    by (simp_all add: spells_def as_path_def walk_snoc walk_end_snoc)
  have 4: "length ?w \<le> length w'" if w': "walk st s w'" "walk_end s w' = t" for w'
  proof (rule ccontr)
    assume "\<not> length ?w \<le> length w'"
    with w(2) have "length w' \<le> k" by simp
    with w' have "t \<in> within st s k" by (auto simp: within_def)
    with wk t rest show False by auto
  qed
  from 1 2 3 4 show ?thesis by blast
qed

section \<open>Invariants of a search\<close>

text \<open>
  Claim C8. Whenever a search reaches the head of its loop with a frontier that is not
  empty, the state of the node it is about to remove is not in the explored set yet, so
  no state is added to the explored set twice. And the people of a returned path are
  pairwise distinct and none of them is the source.
\<close>

theorem explored_once_and_path_distinct:
  "(\<forall>fr ex. search_reaches st order s t fr ex \<and> frontier fr \<noteq> [] \<longrightarrow>
       state (hd (frontier fr)) \<notin> ex) \<and>
   (\<forall>p. shortest_path st order s t = Some (Inr (Some p)) \<longrightarrow>
       distinct (map snd p) \<and> s \<notin> set (map snd p))"
proof (intro conjI allI impI)
  fix fr ex
  assume "search_reaches st order s t fr ex \<and> frontier fr \<noteq> []"
  then have "tidy s fr ex" and "frontier fr \<noteq> []" by (auto dest: search_reaches_tidy)
  then show "state (hd (frontier fr)) \<notin> ex"
    by (cases "frontier fr") (auto simp: tidy_def)
next
  fix p
  assume sp: "shortest_path st order s t = Some (Inr (Some p))"
  then obtain fr ex where reach: "search_reaches st order s t fr ex"
    and ret: "loop_body st order t fr ex = Return (Inr (Some p))"
    by (rule shortest_path_returns)
  from reach have inv: "tidy s fr ex" by (rule search_reaches_tidy)
  from ret obtain n rest m where fr: "frontier fr = n # rest"
    and t: "t \<notin> insert (state n) ex" and p: "p = rev (collect n) @ [(Some m, t)]"
    by (cases rule: loop_body_Return) auto
  from inv fr have n: "distinct (trail n)" "set (trail n) \<subseteq> insert (state n) ex"
    "s \<notin> set (trail n)" "s \<in> insert (state n) ex"
    by (auto simp: tidy_def)
  have snd_p: "map snd p = rev (trail n) @ [t]"
    by (simp add: p trail_def rev_map)
  from n t show "distinct (map snd p)" unfolding snd_p by auto
  from n t show "s \<notin> set (map snd p)" unfolding snd_p by auto
qed

theorem explored_once_and_path_distinct_witness:
  "search_reaches fixture sorted_list_of_set ''A'' ''C''
     \<lparr>frontier = [Node ''B'' (Some (Node ''A'' None None)) (Some ''m1'')]\<rparr> {''A''} \<and>
   state (hd (frontier \<lparr>frontier = [Node ''B'' (Some (Node ''A'' None None)) (Some ''m1'')]\<rparr>))
     \<notin> {''A''} \<and>
   shortest_path fixture sorted_list_of_set ''A'' ''C''
     = Some (Inr (Some [(Some ''m1'', ''B''), (Some ''m2'', ''C'')])) \<and>
   distinct (map snd [(Some ''m1'', ''B''), (Some ''m2'', ''C'')]) \<and>
   ''A'' \<notin> set (map snd [(Some ''m1'', ''B''), (Some ''m2'', ''C'')])"
proof -
  let ?fr = "\<lparr>frontier = [Node ''B'' (Some (Node ''A'' None None)) (Some ''m1'')]\<rparr>"
  have body: "loop_body fixture sorted_list_of_set ''C'' (add init_frontier (Node ''A'' None None)) {}
     = Again ?fr {''A''}"
    by code_simp
  have reach: "search_reaches fixture sorted_list_of_set ''A'' ''C'' ?fr {''A''}"
    unfolding search_reaches_def by (rule loop_reaches.pass [OF loop_reaches.start body])
  have sp: "shortest_path fixture sorted_list_of_set ''A'' ''C''
     = Some (Inr (Some [(Some ''m1'', ''B''), (Some ''m2'', ''C'')]))"
    by code_simp
  have ne: "frontier ?fr \<noteq> []" by simp
  from explored_once_and_path_distinct [of fixture sorted_list_of_set "''A''" "''C''"] reach ne sp
  show ?thesis by blast
qed

text \<open>
  Claim C10. \<open>shortest_path\<close> never returns the empty list: a path is only built from a
  child node, which has a parent.
\<close>

theorem never_empty_path:
  "shortest_path st order s t \<noteq> Some (Inr (Some []))"
proof
  assume "shortest_path st order s t = Some (Inr (Some []))"
  then obtain fr ex where "loop_body st order t fr ex = Return (Inr (Some []))"
    by (rule shortest_path_returns)
  then show False by (cases rule: loop_body_Return) auto
qed

theorem never_empty_path_witness:
  "shortest_path fixture sorted_list_of_set ''A'' ''A'' \<noteq> Some (Inr (Some []))"
  by (rule never_empty_path)

section \<open>Outcomes of a search on a consistent store\<close>

lemma known_pass:
  assumes con: "consistent st" and ord: "enumerates order" and fin: "finite_store st"
    and inv: "state ` set (frontier fr) \<subseteq> dom (people st)"
    and body: "loop_body st order t fr ex = Again fr' ex'"
  shows "state ` set (frontier fr') \<subseteq> dom (people st)"
proof -
  from body obtain n rest nb new where
    fr: "frontier fr = n # rest"
    and nb: "neighbors_for_person st (state n) = Inr nb"
    and fr': "frontier fr' = rest @ new"
    and new: "\<forall>c \<in> set new. parent c = Some n \<and>
              (\<exists>m. action c = Some m \<and> (m, state c) \<in> set (order nb)) \<and>
              state c \<notin> ex' \<and> state c \<noteq> t \<and> state c \<notin> state ` set rest"
    by (rule loop_body_Again)
  have "state c \<in> dom (people st)" if "c \<in> set new" for c
  proof -
    from new that obtain m where "(m, state c) \<in> set (order nb)" by blast
    then have "linked st (state n) m (state c)"
      using neighbors_order [OF ord fin nb] by simp
    with con show ?thesis by (rule linked_known)
  qed
  moreover from inv fr have "state ` set rest \<subseteq> dom (people st)" by auto
  ultimately show ?thesis unfolding fr' by auto
qed

lemma search_reaches_known:
  assumes "consistent st" "enumerates order" "finite_store st" "s \<in> dom (people st)"
    and "search_reaches st order s t fr ex"
  shows "state ` set (frontier fr) \<subseteq> dom (people st)"
  using assms(5)
proof (rule search_reaches_invariant)
  show "state ` set (frontier (add init_frontier (Node s None None))) \<subseteq> dom (people st)"
    using assms(4) by (simp add: add_def init_frontier_def)
next
  fix fr ex fr' ex'
  assume "state ` set (frontier fr) \<subseteq> dom (people st)"
    "loop_body st order t fr ex = Again fr' ex'"
  with assms(1,2,3) show "state ` set (frontier fr') \<subseteq> dom (people st)" by (rule known_pass)
qed

lemma search_outcome:
  assumes con: "consistent st" and ord: "enumerates order" and fin: "finite_store st"
    and src: "s \<in> dom (people st)"
  obtains (no_path) fr ex where "shortest_path st order s t = Some (Inr None)"
      "search_reaches st order s t fr ex" "frontier fr = []"
  | (path) fr ex n rest nb m where
      "shortest_path st order s t = Some (Inr (Some (rev (collect n) @ [(Some m, t)])))"
      "search_reaches st order s t fr ex" "frontier fr = n # rest"
      "neighbors_for_person st (state n) = Inr nb" "(m, t) \<in> set (order nb)"
      "t \<notin> insert (state n) ex"
proof -
  from fin have "finite (dom (people st))" by (simp add: finite_store_def)
  then obtain r where r: "shortest_path st order s t = Some r"
    using shortest_path_terminates by blast
  then obtain fr ex where reach: "search_reaches st order s t fr ex"
    and ret: "loop_body st order t fr ex = Return r"
    by (rule shortest_path_returns)
  from con ord fin src reach have known: "state ` set (frontier fr) \<subseteq> dom (people st)"
    by (rule search_reaches_known)
  from ret show thesis
  proof (cases rule: loop_body_Return)
    case empty
    from r empty(2) have "shortest_path st order s t = Some (Inr None)" by simp
    then show thesis using reach empty(1) by (rule no_path)
  next
    case (raised n rest)
    with known have "state n \<in> dom (people st)" by simp
    from neighbors_consistent [OF con this] raised(2) show thesis by simp
  next
    case (found n rest nb m)
    from r found(6)
    have "shortest_path st order s t = Some (Inr (Some (rev (collect n) @ [(Some m, t)])))"
      by simp
    then show thesis using reach found(1,2,3,4) by (rule path)
  qed
qed

text \<open>
  Breadth-first search is correct on a finite consistent store: for a source of the
  store and a different target that can be reached from it, \<open>shortest_path\<close> returns
  a path that is a walk from the source to the target, and no walk from the source to
  the target has fewer hops.
\<close>

lemma shortest_path_correct:
  assumes con: "consistent st" and ord: "enumerates order" and fin: "finite_store st"
    and src: "s \<in> dom (people st)" and ne: "s \<noteq> t" and reach: "reachable st s t"
  shows "\<exists>w. shortest_path st order s t = Some (Inr (Some (as_path w))) \<and>
             walk st s w \<and> walk_end s w = t \<and>
             (\<forall>w'. walk st s w' \<and> walk_end s w' = t \<longrightarrow> length w \<le> length w')"
  using con ord fin src
proof (cases rule: search_outcome [where t = t])
  case (no_path fr ex)
  from ord fin ne no_path(2) have "levelled st s t fr ex" by (rule search_reaches_levelled)
  from levelled_none [OF this no_path(3)] reach show ?thesis by simp
next
  case (path fr ex n rest nb m)
  from ord fin ne path(2) have "levelled st s t fr ex" by (rule search_reaches_levelled)
  from levelled_found [OF ord fin this path(3,4,5)] path(1) show ?thesis by auto
qed

subsection \<open>The fixture store\<close>

lemma lower_fixture:
  "lower ''Ann'' = ''ann''" "lower ''Bob'' = ''bob''" "lower ''Cy'' = ''cy''"
  "lower ''Dee'' = ''dee''"
  by code_simp+

lemma fixture_eq:
  "fixture = \<lparr>names = [''ann'' \<mapsto> {''A''}, ''bob'' \<mapsto> {''B''}, ''cy'' \<mapsto> {''C''}, ''dee'' \<mapsto> {''D''}],
     people = [''A'' \<mapsto> \<lparr>name = ''Ann'', birth = ''1950'', movies = {''m1''}\<rparr>,
               ''B'' \<mapsto> \<lparr>name = ''Bob'', birth = ''1960'', movies = {''m1'', ''m2''}\<rparr>,
               ''C'' \<mapsto> \<lparr>name = ''Cy'', birth = ''1970'', movies = {''m2''}\<rparr>,
               ''D'' \<mapsto> \<lparr>name = ''Dee'', birth = ''1980'', movies = {}\<rparr>],
     movies_tbl = [''m1'' \<mapsto> \<lparr>title = ''One'', year = ''1990'', stars = {''A'', ''B''}\<rparr>,
                   ''m2'' \<mapsto> \<lparr>title = ''Two'', year = ''2000'', stars = {''B'', ''C''}\<rparr>]\<rparr>"
  apply (simp add: fixture_def load_data_def fixture_people_def fixture_movies_def fixture_stars_def
      empty_store_def load_person_def load_movie_def load_star_def lower_fixture Let_def)
  apply (auto simp: fun_eq_iff)
  done

lemma fixture_consistent: "consistent fixture"
  unfolding consistent_def fixture_eq by (auto split: if_splits)

lemma fixture_finite: "finite_store fixture"
  unfolding finite_store_def fixture_eq by (auto split: if_splits)

lemma fixture_dom: "dom (people fixture) = {''A'', ''B'', ''C'', ''D''}"
  unfolding fixture_eq by auto

lemma enumerates_sorted: "enumerates sorted_list_of_set"
  by (simp add: enumerates_def)

lemma fixture_D_unreachable: "\<not> reachable fixture ''A'' ''D''"
proof
  assume "reachable fixture ''A'' ''D''"
  then obtain w where w: "walk fixture ''A'' w" "walk_end ''A'' w = ''D''"
    by (auto simp: reachable_def)
  have "\<forall>u \<in> {''A'', ''B'', ''C''}. \<forall>m v. linked fixture u m v \<longrightarrow> v \<in> {''A'', ''B'', ''C''}"
    unfolding linked_def fixture_eq by (auto split: if_splits)
  from walk_end_closed [OF this w(1)] w(2) show False by simp
qed

lemma fixture_C_reachable:
  "walk fixture ''A'' [(''m1'', ''B''), (''m2'', ''C'')] \<and>
   walk_end ''A'' [(''m1'', ''B''), (''m2'', ''C'')] = ''C''"
  unfolding fixture_eq by (simp add: linked_def)

lemma shortest_path_correct_fixture:
  "\<exists>w. shortest_path fixture sorted_list_of_set ''A'' ''C'' = Some (Inr (Some (as_path w))) \<and>
       walk fixture ''A'' w \<and> walk_end ''A'' w = ''C'' \<and> length w = 2"
proof -
  have r: "reachable fixture ''A'' ''C''"
    unfolding reachable_def using fixture_C_reachable by blast
  have "''A'' \<in> dom (people fixture)" by (simp add: fixture_dom)
  from shortest_path_correct [OF fixture_consistent enumerates_sorted fixture_finite this _ r]
  obtain w where w: "shortest_path fixture sorted_list_of_set ''A'' ''C'' = Some (Inr (Some (as_path w)))"
    "walk fixture ''A'' w" "walk_end ''A'' w = ''C''"
    "\<forall>w'. walk fixture ''A'' w' \<and> walk_end ''A'' w' = ''C'' \<longrightarrow> length w \<le> length w'"
    by auto
  have "shortest_path fixture sorted_list_of_set ''A'' ''C''
     = Some (Inr (Some [(Some ''m1'', ''B''), (Some ''m2'', ''C'')]))"
    by code_simp
  with w(1) have "as_path w = [(Some ''m1'', ''B''), (Some ''m2'', ''C'')]" by simp
  then have "length (as_path w) = 2" by simp
  then have "length w = 2" by (simp add: as_path_def)
  with w show ?thesis by blast
qed

section \<open>Termination and the outcomes the specification names\<close>

text \<open>
  Claim C4. On a finite, consistent store and from a source that is a key of the people
  table, \<open>shortest_path\<close> returns: the loop makes finitely many passes, since every pass
  that goes round again moves a person who was not explored into the explored set.
\<close>

theorem search_terminates:
  assumes "finite_store st" "consistent st" "s \<in> dom (people st)"
  shows "\<exists>r. shortest_path st order s t = Some r"
proof -
  from assms(1) have "finite (dom (people st))" by (simp add: finite_store_def)
  moreover have "tidy s (add init_frontier (Node s None None)) {}" by (rule tidy_start)
  ultimately have "\<exists>r. while_true st order t (add init_frontier (Node s None None)) {} = Some r"
    by (rule while_true_terminates)
  then show ?thesis by (simp add: shortest_path_def)
qed

theorem search_terminates_witness:
  "finite_store fixture \<and> consistent fixture \<and> ''A'' \<in> dom (people fixture) \<and>
   (\<exists>r. shortest_path fixture sorted_list_of_set ''A'' ''D'' = Some r)"
proof -
  have src: "''A'' \<in> dom (people fixture)" by (simp add: fixture_dom)
  from search_terminates [OF fixture_finite fixture_consistent src, of sorted_list_of_set "''D''"]
    fixture_finite fixture_consistent src
  show ?thesis by blast
qed

text \<open>
  Claim C5. On a finite, consistent store, for two people of the store of whom the
  second cannot be reached from the first, \<open>shortest_path\<close> returns \<open>None\<close> and raises
  nothing.
\<close>

theorem unreachable_gives_None:
  assumes con: "consistent st" and fin: "finite_store st" and ord: "enumerates order"
    and src: "s \<in> dom (people st)" and tgt: "t \<in> dom (people st)"
    and un: "\<not> reachable st s t"
  shows "shortest_path st order s t = Some (Inr None)"
  using con ord fin src
proof (cases rule: search_outcome [where t = t])
  case (no_path fr ex)
  then show ?thesis by simp
next
  case (path fr ex n rest nb m)
  have "reachable st s s" unfolding reachable_def by (rule exI [of _ "[]"]) simp
  with un have ne: "s \<noteq> t" by auto
  from ord fin ne path(2) have "levelled st s t fr ex" by (rule search_reaches_levelled)
  from levelled_found [OF ord fin this path(3,4,5)] have "reachable st s t"
    unfolding reachable_def by blast
  with un show ?thesis by simp
qed

theorem unreachable_gives_None_witness:
  "consistent fixture \<and> finite_store fixture \<and> enumerates sorted_list_of_set \<and>
   ''A'' \<in> dom (people fixture) \<and> ''D'' \<in> dom (people fixture) \<and>
   \<not> reachable fixture ''A'' ''D'' \<and>
   shortest_path fixture sorted_list_of_set ''A'' ''D'' = Some (Inr None)"
proof -
  have src: "''A'' \<in> dom (people fixture)" and tgt: "''D'' \<in> dom (people fixture)"
    by (simp_all add: fixture_dom)
  from unreachable_gives_None [OF fixture_consistent fixture_finite enumerates_sorted src tgt
      fixture_D_unreachable]
    fixture_consistent fixture_finite enumerates_sorted src tgt fixture_D_unreachable
  show ?thesis by blast
qed

text \<open>
  Claim C2 says that an id missing from the people table makes \<open>shortest_path\<close> report a
  lookup failure, never "no path". That fails for a missing target: on the fixture,
  the search from A for an id the store does not know explores what A reaches and
  returns \<open>None\<close>.
\<close>

theorem unknown_target_counterexample:
  "people fixture ''unknown'' = None \<and>
   shortest_path fixture sorted_list_of_set ''A'' ''unknown'' = Some (Inr None)"
  by code_simp

text \<open>
  Claim C2 as amended. A source that is not a key of the people table makes
  \<open>shortest_path\<close> raise \<open>KeyError\<close>, whatever the target. A target that is not a key,
  searched from a source that is one, on a finite consistent store, makes it return
  \<open>None\<close>, the value it returns when there is no path.
\<close>

theorem unknown_ids:
  "(people st s = None \<longrightarrow> shortest_path st order s t = Some (Inl KeyError)) \<and>
   (consistent st \<and> finite_store st \<and> enumerates order \<and>
    s \<in> dom (people st) \<and> people st t = None \<longrightarrow>
      shortest_path st order s t = Some (Inr None))"
proof (intro conjI impI)
  assume "people st s = None"
  then have "neighbors_for_person st s = Inl KeyError" by (rule neighbors_unknown)
  then have "loop_body st order t (add init_frontier (Node s None None)) {} = Return (Inl KeyError)"
    by (simp add: loop_body_def empty_frontier_def QueueFrontier_remove_def add_def
        init_frontier_def)
  then show "shortest_path st order s t = Some (Inl KeyError)"
    unfolding shortest_path_def by (subst while_true.simps) simp
next
  assume a: "consistent st \<and> finite_store st \<and> enumerates order \<and>
    s \<in> dom (people st) \<and> people st t = None"
  then have con: "consistent st" and ord: "enumerates order" and fin: "finite_store st"
    and src: "s \<in> dom (people st)" and tgt: "people st t = None"
    by simp_all
  from con ord fin src show "shortest_path st order s t = Some (Inr None)"
  proof (cases rule: search_outcome [where t = t])
    case (no_path fr ex)
    then show ?thesis by simp
  next
    case (path fr ex n rest nb m)
    from path(5) have "linked st (state n) m t"
      using neighbors_order [OF ord fin path(4)] by simp
    with con have "t \<in> dom (people st)" by (rule linked_known)
    with tgt show ?thesis by auto
  qed
qed

theorem unknown_ids_witness:
  "people fixture ''Z'' = None \<and>
   shortest_path fixture sorted_list_of_set ''Z'' ''A'' = Some (Inl KeyError) \<and>
   consistent fixture \<and> finite_store fixture \<and> enumerates sorted_list_of_set \<and>
   ''A'' \<in> dom (people fixture) \<and>
   shortest_path fixture sorted_list_of_set ''A'' ''Z'' = Some (Inr None)"
proof -
  have z: "people fixture ''Z'' = None" by (simp add: fixture_eq)
  have src: "''A'' \<in> dom (people fixture)" by (simp add: fixture_dom)
  from unknown_ids [of fixture "''Z''" sorted_list_of_set "''A''"]
    unknown_ids [of fixture "''A''" sorted_list_of_set "''Z''"]
    z src fixture_consistent fixture_finite enumerates_sorted
  show ?thesis by blast
qed

text \<open>
  Claim C3 says that \<open>shortest_path(x, x)\<close> returns the empty path. The code has no test
  for equal ids: on the fixture, the search from A for A returns \<open>None\<close>.
\<close>

theorem same_source_and_target_counterexample:
  "people fixture ''A'' \<noteq> None \<and>
   shortest_path fixture sorted_list_of_set ''A'' ''A'' = Some (Inr None) \<and>
   shortest_path fixture sorted_list_of_set ''A'' ''A'' \<noteq> Some (Inr (Some []))"
  by code_simp

text \<open>
  Claim C3 as amended. For every person \<open>x\<close> of a finite consistent store,
  \<open>shortest_path(x, x)\<close> returns \<open>None\<close>: the source is explored before any neighbour is
  looked at, so no child with the state of the source is ever built.
\<close>

theorem same_source_and_target:
  assumes con: "consistent st" and fin: "finite_store st" and ord: "enumerates order"
    and src: "x \<in> dom (people st)"
  shows "shortest_path st order x x = Some (Inr None)"
  using con ord fin src
proof (cases rule: search_outcome [where t = x])
  case (no_path fr ex)
  then show ?thesis by simp
next
  case (path fr ex n rest nb m)
  from path(2) have "tidy x fr ex" by (rule search_reaches_tidy)
  with path(3) have "x \<in> insert (state n) ex" by (simp add: tidy_def)
  with path(6) show ?thesis by simp
qed

theorem same_source_and_target_witness:
  "consistent fixture \<and> finite_store fixture \<and> enumerates sorted_list_of_set \<and>
   ''B'' \<in> dom (people fixture) \<and>
   shortest_path fixture sorted_list_of_set ''B'' ''B'' = Some (Inr None)"
proof -
  have src: "''B'' \<in> dom (people fixture)" by (simp add: fixture_dom)
  from same_source_and_target [OF fixture_consistent fixture_finite enumerates_sorted src]
    fixture_consistent fixture_finite enumerates_sorted src
  show ?thesis by blast
qed

section \<open>Name lookup\<close>

text \<open>
  Claim C6. \<open>person_id_for_name\<close> is claimed to leave the three tables as they were. On
  the store loaded from the fixture files, looking up the unambiguous name "Ann" returns
  her id and empties the set \<open>names["ann"]\<close>, since \<open>set.pop()\<close> removes the element it
  returns; the same lookup made again then raises \<open>KeyError\<close>.
\<close>

theorem person_id_for_name_pops:
  "names fixture ''ann'' = Some {''A''} \<and>
   fst (person_id_for_name fixture reply ''Ann'') = Inr (Some ''A'') \<and>
   names (snd (person_id_for_name fixture reply ''Ann'')) ''ann'' = Some {} \<and>
   fst (person_id_for_name (snd (person_id_for_name fixture reply ''Ann'')) reply ''Ann'')
     = Inl KeyError"
  by code_simp

section \<open>Loading\<close>

text \<open>
  Claim C1, on a store that \<open>load_data\<close> builds. The files of \<open>dangling\<close> hold a row of
  stars.csv naming a known person (A) and an unknown movie (m9). \<open>load_data\<close> adds m9 to
  the movies of A before the lookup of m9 fails, so the row is not dropped whole. B is
  one hop from A through m1, yet \<open>shortest_path\<close> from A to B raises \<open>KeyError\<close>, whatever
  the iteration order.
\<close>

theorem shortest_path_dangling_raises:
  "walk dangling ''A'' [(''m1'', ''B'')] \<and> walk_end ''A'' [(''m1'', ''B'')] = ''B'' \<and>
   shortest_path dangling order ''A'' ''B'' = Some (Inl KeyError)"
proof -
  have "linked dangling ''A'' ''m1'' ''B''"
    unfolding linked_def
    by (rule exI [of _ "the (people dangling ''A'')"],
        rule exI [of _ "the (movies_tbl dangling ''m1'')"]) code_simp
  moreover have "shortest_path dangling order ''A'' ''B'' = Some (Inl KeyError)"
    by code_simp
  ultimately show ?thesis by simp
qed

end
